theory Spec2Isabelle
  imports Main "HOL-Library.Word" "HOL-Library.Sublist"
begin

section \<open>Values and errors\<close>

text \<open>
  Rule metadata is an open-ended mapping read from the engine's JSON output
  (\<open>Mapping[str, Any]\<close>); its values are modelled as JSON values, a dict as an
  association list in insertion order.
\<close>

datatype json =
    JNull
  | JBool bool
  | JInt int
  | JStr string
  | JList "json list"
  | JDict "(string \<times> json) list"

text \<open>The exceptions the modelled code can raise.\<close>

datatype py_error =
    KeyError string
  | TypeError
  | AttributeError
  | OverflowError
  | ErrorReturnCode string

section \<open>textwrap.dedent\<close>

text \<open>
  \<open>Finding.syntactic_context\<close> is declared with \<open>converter=textwrap.dedent\<close>.
  The converter is the standard library's regex-based \<open>dedent\<close>:
  \<^verbatim>\<open>
  _whitespace_only_re = re.compile('^[ \t]+$', re.MULTILINE)
  _leading_whitespace_re = re.compile('(^[ \t]*)(?:[^ \t\n])', re.MULTILINE)

  def dedent(text):
      margin = None
      text = _whitespace_only_re.sub('', text)
      indents = _leading_whitespace_re.findall(text)
      for indent in indents:
          if margin is None:
              margin = indent
          elif indent.startswith(margin):
              pass
          elif margin.startswith(indent):
              margin = indent
          else:
              for i, (x, y) in enumerate(zip(margin, indent)):
                  if x != y:
                      margin = margin[:i]
                      break
      if margin:
          text = re.sub(r'(?m)^' + margin, '', text)
      return text
  \<close>
  In MULTILINE mode \<open>^\<close> and \<open>$\<close> anchor at the line feeds only, and none of the
  three patterns can match across a line feed, so the function works line by line on the
  text split at line feeds.
\<close>

definition is_ws :: "char \<Rightarrow> bool" where
  "is_ws c = (c = CHR '' '' \<or> c = CHR 0x09)"

fun split_lines :: "string \<Rightarrow> string list" where
  "split_lines [] = [[]]"
| "split_lines (c # cs) =
     (if c = CHR 0x0A then [] # split_lines cs
      else (case split_lines cs of
              [] \<Rightarrow> [[c]]
            | l # ls \<Rightarrow> (c # l) # ls))"

fun join_lines :: "string list \<Rightarrow> string" where
  "join_lines [] = []"
| "join_lines [l] = l"
| "join_lines (l # ls) = l @ CHR 0x0A # join_lines ls"

definition normalize_line :: "string \<Rightarrow> string" where
  \<comment> \<open>\<open>_whitespace_only_re.sub('', text)\<close> on one line\<close>
  "normalize_line l = (if l \<noteq> [] \<and> list_all is_ws l then [] else l)"

definition indents :: "string list \<Rightarrow> string list" where
  \<comment> \<open>\<open>_leading_whitespace_re.findall(text)\<close>: the leading blanks of every line
      that has a character other than a blank\<close>
  "indents ls = map (takeWhile is_ws) (filter (\<lambda>l. \<not> list_all is_ws l) ls)"

fun mismatch_cut :: "string \<Rightarrow> string \<Rightarrow> string" where
  \<comment> \<open>the inner \<open>for\<close> loop: \<open>margin[:i]\<close> at the first mismatch, \<open>margin\<close>
      unchanged when \<open>zip\<close> ends without one\<close>
  "mismatch_cut (x # xs) (y # ys) = (if x \<noteq> y then [] else x # mismatch_cut xs ys)"
| "mismatch_cut m _ = m"

definition margin_step :: "string option \<Rightarrow> string \<Rightarrow> string option" where
  "margin_step margin indent =
     (case margin of
        None \<Rightarrow> Some indent
      | Some m \<Rightarrow>
          if prefix m indent then Some m
          else if prefix indent m then Some indent
          else Some (mismatch_cut m indent))"

definition strip_margin :: "string \<Rightarrow> string \<Rightarrow> string" where
  \<comment> \<open>\<open>re.sub(r'(?m)^' + margin, '', text)\<close> on one line\<close>
  "strip_margin m l = (if prefix m l then drop (length m) l else l)"

definition dedent :: "string \<Rightarrow> string" where
  "dedent text =
     (let ls = map normalize_line (split_lines text);
          margin = foldl margin_step None (indents ls)
      in join_lines
           (case margin of
              None \<Rightarrow> ls
            | Some m \<Rightarrow> if m \<noteq> [] then map (strip_margin m) ls else ls))"

text \<open>
  Indenting a text uniformly: the same run of blanks \<open>p\<close> is put before every line.
\<close>

definition indent_text :: "string \<Rightarrow> string \<Rightarrow> string" where
  "indent_text p t = join_lines (map ((@) p) (split_lines t))"

text \<open>
  Two texts that differ only in a uniform indentation: line by line, the second text has
  the run of blanks \<open>p\<close> before the line of the first; a line that holds blanks only
  (or nothing) may hold any blanks in either text, as editors and \<open>textwrap.indent\<close>
  leave such lines alone.
\<close>

definition uniformly_indented :: "string \<Rightarrow> string \<Rightarrow> string \<Rightarrow> bool" where
  "uniformly_indented p t t' =
     list_all2 (\<lambda>l l'. l' = p @ l \<or> (list_all is_ws l \<and> list_all is_ws l'))
       (split_lines t) (split_lines t')"

text \<open>Notions used in the proofs about \<open>dedent\<close>.\<close>

definition no_lf :: "string \<Rightarrow> bool" where
  "no_lf l = (CHR 0x0A \<notin> set l)"

definition dedent_lines :: "string list \<Rightarrow> string list" where
  "dedent_lines ls =
     (case foldl margin_step None (indents ls) of
        None \<Rightarrow> ls
      | Some m \<Rightarrow> map (strip_margin m) ls)"

definition normal :: "string \<Rightarrow> bool" where
  "normal l = (l = [] \<or> \<not> list_all is_ws l)"

definition indent_line :: "string \<Rightarrow> string \<Rightarrow> string" where
  "indent_line p l = (if l = [] then [] else p @ l)"

section \<open>Finding and FindingKey\<close>

record FindingKey =
  key_check_id :: string
  key_path :: string
  key_syntactic_context :: string

text \<open>
  The attributes of \<open>Finding\<close> in declaration order. \<open>'dt\<close> stands for
  \<open>datetime\<close>.
\<close>

record 'dt Finding =
  check_id :: string
  path :: string
  line :: int
  column :: int
  message :: string
  severity :: int
  index :: int
  syntactic_context :: string
  end_line :: "int option"
  end_column :: "int option"
  commit_date :: "'dt option"
  metadata :: "(string \<times> json) list"

definition Finding_init ::
  "string \<Rightarrow> string \<Rightarrow> int \<Rightarrow> int \<Rightarrow> string \<Rightarrow> int \<Rightarrow> int \<Rightarrow> string \<Rightarrow>
   int option \<Rightarrow> int option \<Rightarrow> 'dt option \<Rightarrow> (string \<times> json) list \<Rightarrow> 'dt Finding" where
  \<comment> \<open>the generated \<open>__init__\<close>: every attribute is stored as given, except
      \<open>syntactic_context\<close>, which goes through its converter\<close>
  "Finding_init c p l col msg sev i ctx el ec cd md =
     \<lparr> check_id = c, path = p, line = l, column = col, message = msg, severity = sev,
       index = i, syntactic_context = dedent ctx, end_line = el, end_column = ec,
       commit_date = cd, metadata = md \<rparr>"

definition evolve_index :: "'dt Finding \<Rightarrow> int \<Rightarrow> 'dt Finding" where
  \<comment> \<open>\<open>attr.evolve(finding, index=index)\<close>: a new instance built by \<open>__init__\<close>
      from the attributes of \<open>finding\<close>, with \<open>index\<close> replaced\<close>
  "evolve_index f i =
     Finding_init (check_id f) (path f) (line f) (column f) (message f) (severity f) i
       (syntactic_context f) (end_line f) (end_column f) (commit_date f) (metadata f)"

definition Finding_eq :: "'dt Finding \<Rightarrow> 'dt Finding \<Rightarrow> bool" where
  \<comment> \<open>the generated \<open>__eq__\<close>: it compares the attributes not declared
      \<open>eq=False\<close>, which are \<open>check_id\<close>, \<open>path\<close> and \<open>syntactic_context\<close>\<close>
  "Finding_eq f g =
     ((check_id f, path f, syntactic_context f) = (check_id g, path g, syntactic_context g))"

subsection \<open>The syntactic identifier\<close>

text \<open>
  Two library functions are parameters of the model: \<open>py_str\<close> is Python's \<open>str\<close> on
  the tuple \<open>(check_id, path, index, syntactic_context)\<close>, and \<open>hash128\<close> is
  \<open>pymmh3.hash128\<close>, which returns an unsigned 128-bit integer.
\<close>

type_synonym id_tuple = "string \<times> string \<times> int \<times> string"

definition syntactic_identifier_int ::
  "(id_tuple \<Rightarrow> string) \<Rightarrow> (string \<Rightarrow> 128 word) \<Rightarrow> 'dt Finding \<Rightarrow> int" where
  "syntactic_identifier_int py_str hash128 f =
     (let str_id = py_str (check_id f, path f, index f, syntactic_context f)
      in uint (hash128 str_id))"

definition int_to_bytes :: "int \<Rightarrow> nat \<Rightarrow> py_error + 8 word list" where
  \<comment> \<open>\<open>int.to_bytes(v, byteorder="big", length=n, signed=False)\<close>\<close>
  "int_to_bytes v n =
     (if v < 0 then Inl OverflowError
      else if 256 ^ n \<le> v then Inl OverflowError
      else Inr (map (\<lambda>i. word_of_int (v div 256 ^ (n - 1 - i))) [0..<n]))"

definition hex_digit :: "nat \<Rightarrow> char" where
  "hex_digit d = ''0123456789abcdef'' ! d"

definition hexlify :: "8 word list \<Rightarrow> string" where
  "hexlify bs = concat (map (\<lambda>b. [hex_digit (unat b div 16), hex_digit (unat b mod 16)]) bs)"

definition syntactic_identifier_str ::
  "(id_tuple \<Rightarrow> string) \<Rightarrow> (string \<Rightarrow> 128 word) \<Rightarrow> 'dt Finding \<Rightarrow> py_error + string" where
  "syntactic_identifier_str py_str hash128 f =
     (case int_to_bytes (syntactic_identifier_int py_str hash128 f) 16 of
        Inl e \<Rightarrow> Inl e
      | Inr id_bytes \<Rightarrow> Inr (hexlify id_bytes))"

definition Finding_hash ::
  "(id_tuple \<Rightarrow> string) \<Rightarrow> (string \<Rightarrow> 128 word) \<Rightarrow> 'dt Finding \<Rightarrow> int" where
  \<comment> \<open>\<open>__hash__\<close>\<close>
  "Finding_hash py_str hash128 f = syntactic_identifier_int py_str hash128 f"

subsection \<open>Sets of findings\<close>

text \<open>
  A Python set stores with each member the value of the builtin \<open>hash\<close> on it, and takes
  two objects for the same member when these stored hashes agree and \<open>__eq__\<close> holds.
  The builtin \<open>hash\<close> keeps a result of \<open>__hash__\<close> that fits a signed 64-bit word and
  reduces a larger one as it hashes an integer (64-bit CPython: modulo \<open>2^61 - 1\<close>, with
  the sign); \<open>-1\<close> is replaced by \<open>-2\<close>.
\<close>

definition long_hash :: "int \<Rightarrow> int" where
  "long_hash v = (let h = sgn v * (\<bar>v\<bar> mod (2 ^ 61 - 1)) in if h = - 1 then - 2 else h)"

definition builtin_hash :: "int \<Rightarrow> int" where
  "builtin_hash res =
     (let h = (if - (2 ^ 63) \<le> res \<and> res < 2 ^ 63 then res else long_hash res)
      in if h = - 1 then - 2 else h)"

definition stored_hash ::
  "(id_tuple \<Rightarrow> string) \<Rightarrow> (string \<Rightarrow> 128 word) \<Rightarrow> 'dt Finding \<Rightarrow> int" where
  \<comment> \<open>\<open>hash(f)\<close>\<close>
  "stored_hash py_str hash128 f = builtin_hash (Finding_hash py_str hash128 f)"

definition same_member ::
  "(id_tuple \<Rightarrow> string) \<Rightarrow> (string \<Rightarrow> 128 word) \<Rightarrow> 'dt Finding \<Rightarrow> 'dt Finding \<Rightarrow> bool" where
  "same_member py_str hash128 f g =
     (stored_hash py_str hash128 f = stored_hash py_str hash128 g \<and> Finding_eq f g)"

text \<open>
  A set is represented by the list of its members, each kept as the object first added;
  the order of the list has no meaning.
\<close>

definition set_contains ::
  "(id_tuple \<Rightarrow> string) \<Rightarrow> (string \<Rightarrow> 128 word) \<Rightarrow> 'dt Finding list \<Rightarrow> 'dt Finding \<Rightarrow> bool" where
  "set_contains py_str hash128 s f = list_ex (same_member py_str hash128 f) s"

definition set_add ::
  "(id_tuple \<Rightarrow> string) \<Rightarrow> (string \<Rightarrow> 128 word) \<Rightarrow> 'dt Finding list \<Rightarrow> 'dt Finding \<Rightarrow>
   'dt Finding list" where
  "set_add py_str hash128 s f = (if set_contains py_str hash128 s f then s else s @ [f])"

definition py_set ::
  "(id_tuple \<Rightarrow> string) \<Rightarrow> (string \<Rightarrow> 128 word) \<Rightarrow> 'dt Finding list \<Rightarrow> 'dt Finding list" where
  \<comment> \<open>\<open>set(iterable)\<close>\<close>
  "py_set py_str hash128 fs = foldl (set_add py_str hash128) [] fs"

definition set_difference ::
  "(id_tuple \<Rightarrow> string) \<Rightarrow> (string \<Rightarrow> 128 word) \<Rightarrow> 'dt Finding list \<Rightarrow> 'dt Finding list \<Rightarrow>
   'dt Finding list" where
  \<comment> \<open>\<open>s - t\<close>: the members of \<open>s\<close> that \<open>t\<close> does not contain\<close>
  "set_difference py_str hash128 s t = filter (\<lambda>f. \<not> set_contains py_str hash128 t f) s"

section \<open>FindingSets\<close>

record 'dt FindingSets =
  baseline_map :: "(FindingKey \<times> 'dt Finding list) list"
  current_map :: "(FindingKey \<times> 'dt Finding list) list"

definition map_to_set ::
  "(id_tuple \<Rightarrow> string) \<Rightarrow> (string \<Rightarrow> 128 word) \<Rightarrow> (FindingKey \<times> 'dt Finding list) list \<Rightarrow>
   'dt Finding list" where
  \<comment> \<open>\<open>_map_to_set\<close>; the dict is the list of its items in insertion order\<close>
  "map_to_set py_str hash128 mapping =
     py_set py_str hash128
       (concat (map (\<lambda>findings_for_key.
                       map (\<lambda>(i, finding). evolve_index finding (int i))
                           (enumerate 0 findings_for_key))
                    (map snd mapping)))"

definition current_set ::
  "(id_tuple \<Rightarrow> string) \<Rightarrow> (string \<Rightarrow> 128 word) \<Rightarrow> 'dt FindingSets \<Rightarrow> 'dt Finding list" where
  "current_set py_str hash128 fs = map_to_set py_str hash128 (current_map fs)"

definition baseline_set ::
  "(id_tuple \<Rightarrow> string) \<Rightarrow> (string \<Rightarrow> 128 word) \<Rightarrow> 'dt FindingSets \<Rightarrow> 'dt Finding list" where
  "baseline_set py_str hash128 fs = map_to_set py_str hash128 (baseline_map fs)"

definition expensive_new ::
  "(id_tuple \<Rightarrow> string) \<Rightarrow> (string \<Rightarrow> 128 word) \<Rightarrow> 'dt FindingSets \<Rightarrow> 'dt Finding list" where
  "expensive_new py_str hash128 fs =
     set_difference py_str hash128 (current_set py_str hash128 fs) (baseline_set py_str hash128 fs)"

section \<open>Other operations of Finding\<close>

definition dict_get :: "(string \<times> 'v) list \<Rightarrow> string \<Rightarrow> 'v \<Rightarrow> 'v" where
  \<comment> \<open>\<open>d.get(k, default)\<close>\<close>
  "dict_get d k dflt = (case map_of d k of None \<Rightarrow> dflt | Some v \<Rightarrow> v)"

fun dict_set :: "(string \<times> 'v) list \<Rightarrow> string \<Rightarrow> 'v \<Rightarrow> (string \<times> 'v) list" where
  \<comment> \<open>\<open>d[k] = v\<close>: an existing key keeps its place, a new one goes last\<close>
  "dict_set [] k v = [(k, v)]"
| "dict_set ((k', v') # d) k v =
     (if k' = k then (k', v) # d else (k', v') # dict_set d k v)"

fun str_in :: "string \<Rightarrow> json \<Rightarrow> py_error + bool" where
  \<comment> \<open>\<open>s in v\<close> for a string \<open>s\<close>: membership in a list, a substring test on a string,
      a key test on a dict, and \<open>TypeError\<close> on a value that is not a container\<close>
  "str_in s (JList xs) = Inr (JStr s \<in> set xs)"
| "str_in s (JStr t) = Inr (sublist s t)"
| "str_in s (JDict d) = Inr (s \<in> fst ` set d)"
| "str_in s JNull = Inl TypeError"
| "str_in s (JBool b) = Inl TypeError"
| "str_in s (JInt n) = Inl TypeError"

definition is_blocking :: "'dt Finding \<Rightarrow> py_error + bool" where
  "is_blocking f =
     str_in ''block'' (dict_get (metadata f) ''dev.semgrep.actions'' (JList [JStr ''block'']))"

definition semgrep_severity_to_int :: "string \<Rightarrow> int" where
  "semgrep_severity_to_int sev =
     (if sev = ''ERROR'' then 2 else if sev = ''WARNING'' then 1 else 0)"

text \<open>
  A raw match record of the engine, with the fields \<open>from_semgrep_result\<close> reads:
  \<open>check_id\<close>, \<open>path\<close>, \<open>start.line\<close>, \<open>start.col\<close>, \<open>end.line\<close>, \<open>end.col\<close>,
  \<open>extra.lines\<close>, \<open>extra.message\<close>, \<open>extra.severity\<close> and \<open>extra.metadata\<close>.
\<close>

record raw_result =
  r_check_id :: string
  r_path :: string
  r_start_line :: int
  r_start_col :: int
  r_end_line :: int
  r_end_col :: int
  r_lines :: string
  r_message :: string
  r_severity :: string
  r_metadata :: "(string \<times> json) list"

definition from_semgrep_result ::
  "raw_result \<Rightarrow> 'dt option \<Rightarrow> FindingKey \<times> 'dt Finding" where
  "from_semgrep_result result committed_datetime =
     (let check_id' = r_check_id result;
          path' = r_path result;
          syntactic_context' = r_lines result;
          key = \<lparr> key_check_id = check_id', key_path = path',
                  key_syntactic_context = syntactic_context' \<rparr>;
          finding =
            Finding_init check_id' path' (r_start_line result) (r_start_col result)
              (r_message result) (semgrep_severity_to_int (r_severity result)) 0
              syntactic_context' (Some (r_end_col result)) (Some (r_end_col result))
              committed_datetime (r_metadata result)
      in (key, finding))"

text \<open>The values of the dict that \<open>to_dict\<close> builds.\<close>

datatype 'dt pyval =
    VNone
  | VInt int
  | VStr string
  | VDate 'dt
  | VDict "(string \<times> json) list"

definition opt_int :: "int option \<Rightarrow> 'dt pyval" where
  "opt_int v = (case v of None \<Rightarrow> VNone | Some n \<Rightarrow> VInt n)"

definition asdict :: "'dt Finding \<Rightarrow> (string \<times> 'dt pyval) list" where
  \<comment> \<open>\<open>attr.asdict(self)\<close>: every attribute under its name, in declaration order\<close>
  "asdict f =
     [(''check_id'', VStr (check_id f)),
      (''path'', VStr (path f)),
      (''line'', VInt (line f)),
      (''column'', VInt (column f)),
      (''message'', VStr (message f)),
      (''severity'', VInt (severity f)),
      (''index'', VInt (index f)),
      (''syntactic_context'', VStr (syntactic_context f)),
      (''end_line'', opt_int (end_line f)),
      (''end_column'', opt_int (end_column f)),
      (''commit_date'', (case commit_date f of None \<Rightarrow> VNone | Some d \<Rightarrow> VDate d)),
      (''metadata'', VDict (metadata f))]"

definition to_dict ::
  "(id_tuple \<Rightarrow> string) \<Rightarrow> (string \<Rightarrow> 128 word) \<Rightarrow> ('dt \<Rightarrow> string) \<Rightarrow> 'dt Finding \<Rightarrow>
   py_error + (string \<times> 'dt pyval) list" where
  \<comment> \<open>\<open>isoformat\<close> is \<open>datetime.isoformat\<close>\<close>
  "to_dict py_str hash128 isoformat f =
     (let d = asdict f;
          d = filter (\<lambda>(k, v). v \<noteq> VNone) d
      in case syntactic_identifier_str py_str hash128 f of
           Inl e \<Rightarrow> Inl e
         | Inr sid \<Rightarrow>
             (let d = dict_set d ''syntactic_id'' (VStr sid)
              in case map_of d ''commit_date'' of
                   None \<Rightarrow> Inl (KeyError ''commit_date'')
                 | Some (VDate dt) \<Rightarrow> Inr (dict_set d ''commit_date'' (VStr (isoformat dt)))
                 | Some _ \<Rightarrow> Inl AttributeError))"

section \<open>fix_head_for_github\<close>

datatype git_cmd = RevParse string | BranchShowCurrent | Checkout string | Log string

text \<open>
  The repository as the commands see it: \<open>branch\<close> is what
  \<open>git branch --show-current\<close> prints (empty on a detached HEAD), \<open>commit_of\<close>
  gives the commit hash a revision names (\<open>None\<close> when it names none, and the
  command fails), \<open>is_branch\<close> tells the names of branches, and \<open>trace\<close> lists
  the git commands run so far. The messages written with \<open>click.echo\<close> are left out.
\<close>

record repo =
  present :: bool
  branch :: string
  commit_of :: "string \<Rightarrow> string option"
  is_branch :: "string \<Rightarrow> bool"
  trace :: "git_cmd list"

text \<open>
  Modelled from the spec: \<open>get_git_repo\<close> (of \<open>semgrep_agent.utils\<close>, which is not
  among the sources) tells whether a repository is present at all; the field
  \<open>present\<close> holds its answer.
\<close>

definition ran :: "git_cmd \<Rightarrow> repo \<Rightarrow> repo" where
  "ran c g = g\<lparr> trace := trace g @ [c] \<rparr>"

definition git_rev_parse :: "string \<Rightarrow> repo \<Rightarrow> (py_error + string) \<times> repo" where
  "git_rev_parse r g =
     ((case commit_of g r of
         None \<Rightarrow> Inl (ErrorReturnCode ''git rev-parse'')
       | Some c \<Rightarrow> Inr c),
      ran (RevParse r) g)"

definition git_branch_show_current :: "repo \<Rightarrow> (py_error + string) \<times> repo" where
  "git_branch_show_current g = (Inr (branch g), ran BranchShowCurrent g)"

definition git_checkout :: "string \<Rightarrow> repo \<Rightarrow> (py_error + unit) \<times> repo" where
  "git_checkout r g =
     (case commit_of g r of
        None \<Rightarrow> (Inl (ErrorReturnCode ''git checkout''), ran (Checkout r) g)
      | Some c \<Rightarrow>
          (Inr (),
           (ran (Checkout r) g)
             \<lparr> branch := (if is_branch g r then r else []),
               commit_of := (commit_of g)(''HEAD'' \<mapsto> c) \<rparr>))"

definition git_log :: "string \<Rightarrow> repo \<Rightarrow> (py_error + unit) \<times> repo" where
  "git_log base g =
     ((if base \<noteq> [] \<and> commit_of g base = None
       then Inl (ErrorReturnCode ''git log'') else Inr ()),
      ran (Log (base @ ''..HEAD'')) g)"

text \<open>
  \<open>fix_head_for_github\<close> is a generator-based context manager. Entering the scope runs
  the generator up to its \<open>yield\<close>; leaving it, with or without an exception, resumes
  the generator, which runs the \<open>finally\<close> block. An exception raised before the
  \<open>try\<close> leaves the function at once; one raised by \<open>git log\<close> inside the
  \<open>try\<close> runs the \<open>finally\<close> block first. An exception raised in the
  \<open>finally\<close> block replaces the pending one.
\<close>

definition resolve_base :: "string option \<Rightarrow> repo \<Rightarrow> (py_error + string option) \<times> repo" where
  \<comment> \<open>\<open>if base_ref: base_ref = git(["rev-parse", base_ref])...\<close>\<close>
  "resolve_base base_ref g =
     (case base_ref of
        None \<Rightarrow> (Inr None, g)
      | Some b \<Rightarrow>
          if b \<noteq> [] then
            (case git_rev_parse b g of
               (Inl e, g') \<Rightarrow> (Inl e, g')
             | (Inr c, g') \<Rightarrow> (Inr (Some c), g'))
          else (Inr (Some b), g))"

definition stash_and_checkout ::
  "string option \<Rightarrow> repo \<Rightarrow> (py_error + string option) \<times> repo" where
  \<comment> \<open>the block under \<open>if head_ref:\<close>; the result is \<open>stashed_rev\<close>\<close>
  "stash_and_checkout head_ref g =
     (case head_ref of
        None \<Rightarrow> (Inr None, g)
      | Some h \<Rightarrow>
          if h \<noteq> [] then
            (case git_branch_show_current g of
               (Inl e, g1) \<Rightarrow> (Inl e, g1)
             | (Inr shown, g1) \<Rightarrow>
                 (case (if shown = [] then git_rev_parse ''HEAD'' g1 else (Inr shown, g1)) of
                    (Inl e, g2) \<Rightarrow> (Inl e, g2)
                  | (Inr stashed_rev, g2) \<Rightarrow>
                      (case git_checkout h g2 of
                         (Inl e, g3) \<Rightarrow> (Inl e, g3)
                       | (Inr _, g3) \<Rightarrow> (Inr (Some stashed_rev), g3))))
          else (Inr None, g))"

definition fix_head_exit :: "string option \<Rightarrow> repo \<Rightarrow> (py_error + unit) \<times> repo" where
  \<comment> \<open>the \<open>finally\<close> block\<close>
  "fix_head_exit stashed_rev g =
     (case stashed_rev of
        None \<Rightarrow> (Inr (), g)
      | Some r \<Rightarrow> git_checkout r g)"

definition fix_head_enter ::
  "string option \<Rightarrow> string option \<Rightarrow> repo \<Rightarrow>
   (py_error + string option \<times> string option) \<times> repo" where
  \<comment> \<open>the generator up to its \<open>yield\<close>: the result is the yielded \<open>base_ref\<close>
      together with \<open>stashed_rev\<close>\<close>
  "fix_head_enter base_commit_ref head_ref g =
     (if \<not> present g then (Inr (base_commit_ref, None), g)
      else
        (case resolve_base base_commit_ref g of
           (Inl e, g1) \<Rightarrow> (Inl e, g1)
         | (Inr base_ref, g1) \<Rightarrow>
             (case stash_and_checkout head_ref g1 of
                (Inl e, g2) \<Rightarrow> (Inl e, g2)
              | (Inr stashed_rev, g2) \<Rightarrow>
                  (case base_ref of
                     None \<Rightarrow> (Inr (base_ref, stashed_rev), g2)
                   | Some b \<Rightarrow>
                       (case git_log b g2 of
                          (Inr _, g3) \<Rightarrow> (Inr (base_ref, stashed_rev), g3)
                        | (Inl e, g3) \<Rightarrow>
                            (case fix_head_exit stashed_rev g3 of
                               (Inl e', g4) \<Rightarrow> (Inl e', g4)
                             | (Inr _, g4) \<Rightarrow> (Inl e, g4)))))))"

definition fix_head_for_github ::
  "string option \<Rightarrow> string option \<Rightarrow> (string option \<Rightarrow> repo \<Rightarrow> (py_error + 'a) \<times> repo) \<Rightarrow>
   repo \<Rightarrow> (py_error + 'a) \<times> repo" where
  \<comment> \<open>\<open>with fix_head_for_github(base_commit_ref, head_ref) as base_ref: body\<close>\<close>
  "fix_head_for_github base_commit_ref head_ref body g =
     (case fix_head_enter base_commit_ref head_ref g of
        (Inl e, g1) \<Rightarrow> (Inl e, g1)
      | (Inr (base_ref, stashed_rev), g1) \<Rightarrow>
          (case body base_ref g1 of
             (r, g2) \<Rightarrow>
               (case fix_head_exit stashed_rev g2 of
                  (Inl e, g3) \<Rightarrow> (Inl e, g3)
                | (Inr _, g3) \<Rightarrow> (r, g3))))"

section \<open>Example values\<close>

definition ex_finding :: "unit Finding" where
  "ex_finding =
     Finding_init ''rule'' ''a.py'' 3 1 ''msg'' 2 0 ''  x = 1'' (Some 9) (Some 9) None []"

definition ex_str :: "id_tuple \<Rightarrow> string" where
  "ex_str = (\<lambda>(c, p, i, s). c @ p @ replicate (nat i) CHR ''i'' @ s)"

definition ex_hash128 :: "string \<Rightarrow> 128 word" where
  "ex_hash128 s = word_of_nat (length s)"



definition ex_raw :: raw_result where
  "ex_raw =
     \<lparr> r_check_id = ''rule'', r_path = ''a.py'', r_start_line = 3, r_start_col = 5,
       r_end_line = 4, r_end_col = 12, r_lines = ''if x:\<newline>  y = 1'', r_message = ''msg'',
       r_severity = ''ERROR'', r_metadata = [] \<rparr>"

definition ex_repo :: repo where
  "ex_repo =
     \<lparr> present = True, branch = ''pr'',
       commit_of = [''pr'' \<mapsto> ''c1'', ''HEAD'' \<mapsto> ''c1'', ''main'' \<mapsto> ''c0''],
       is_branch = (\<lambda>r. r = ''pr'' \<or> r = ''main''), trace = [] \<rparr>"

definition observe :: "string option \<Rightarrow> repo \<Rightarrow> (py_error + git_cmd list) \<times> repo" where
  \<comment> \<open>a scope body that returns the commands run before it started\<close>
  "observe base_ref g = (Inr (trace g), g)"

definition raising :: "string option \<Rightarrow> repo \<Rightarrow> (py_error + unit) \<times> repo" where
  \<comment> \<open>a scope body that raises\<close>
  "raising base_ref g = (Inl TypeError, g)"

definition new_cmds :: "repo \<Rightarrow> repo \<Rightarrow> git_cmd list" where
  \<comment> \<open>the commands run between two states\<close>
  "new_cmds g g' = drop (length (trace g)) (trace g')"

section \<open>Properties of dedent\<close>

subsection \<open>Lines\<close>

lemma split_lines_nonempty: "split_lines t \<noteq> []"
  by (induction t) (auto split: list.splits)

lemma split_lines_no_lf: "l \<in> set (split_lines t) \<Longrightarrow> no_lf l"
  by (induction t arbitrary: l) (auto simp: no_lf_def split: list.splits if_splits)

lemma join_split_lines: "join_lines (split_lines t) = t"
proof (induction t)
  case Nil
  then show ?case by simp
next
  case (Cons c t)
  obtain l ls where s: "split_lines t = l # ls"
    using split_lines_nonempty [of t] by (cases "split_lines t") auto
  show ?case
  proof (cases "c = CHR 0x0A")
    case True
    then show ?thesis using Cons s by simp
  next
    case False
    then show ?thesis using Cons s by (cases ls) simp_all
  qed
qed

lemma split_lines_append_lf:
  "no_lf l \<Longrightarrow> split_lines (l @ CHR 0x0A # t) = l # split_lines t"
  by (induction l) (auto simp: no_lf_def)

lemma split_lines_single: "no_lf l \<Longrightarrow> split_lines l = [l]"
  by (induction l) (auto simp: no_lf_def)

lemma split_join_lines:
  "ls \<noteq> [] \<Longrightarrow> list_all no_lf ls \<Longrightarrow> split_lines (join_lines ls) = ls"
proof (induction ls rule: join_lines.induct)
  case 1
  then show ?case by simp
next
  case (2 l)
  then show ?case by (simp add: split_lines_single)
next
  case (3 l v va)
  then show ?case by (simp add: split_lines_append_lf)
qed

subsection \<open>The margin\<close>

lemma strip_margin_Nil: "strip_margin [] l = l" "map (strip_margin []) ls = ls"
proof -
  show "strip_margin [] l = l" for l by (simp add: strip_margin_def)
  then show "map (strip_margin []) ls = ls" by (simp add: map_idI)
qed

lemma dedent_dedent_lines:
  "dedent t = join_lines (dedent_lines (map normalize_line (split_lines t)))"
proof -
  have "(if m \<noteq> [] then map (strip_margin m) ls else ls) = map (strip_margin m) ls" for m ls
    by (simp add: strip_margin_Nil)
  then show ?thesis by (simp add: dedent_def dedent_lines_def Let_def split: option.splits)
qed

lemma mismatch_cut_append: "mismatch_cut (p @ m) (p @ i) = p @ mismatch_cut m i"
  by (induction p) simp_all

lemma margin_step_append:
  "margin_step (map_option ((@) p) a) (p @ i) = map_option ((@) p) (margin_step a i)"
  by (cases a) (simp_all add: margin_step_def mismatch_cut_append)

lemma margin_append:
  "foldl margin_step (map_option ((@) p) a) (map ((@) p) is)
     = map_option ((@) p) (foldl margin_step a is)"
proof (induction "is" arbitrary: a)
  case Nil
  then show ?case by simp
next
  case (Cons i "is")
  show ?case using Cons [of "margin_step a i"] by (simp add: margin_step_append)
qed

lemma margin_append_None:
  "foldl margin_step None (map ((@) p) is) = map_option ((@) p) (foldl margin_step None is)"
  using margin_append [of p None "is"] by simp

lemma mismatch_cut_prefix: "prefix (mismatch_cut m i) m"
  by (induction m i rule: mismatch_cut.induct) simp_all

lemma mismatch_cut_prefix2:
  "\<not> prefix m i \<Longrightarrow> \<not> prefix i m \<Longrightarrow> prefix (mismatch_cut m i) i"
  by (induction m i rule: mismatch_cut.induct) (simp_all split: if_splits)

lemma margin_step_Some:
  "\<exists>m'. margin_step (Some m) i = Some m' \<and> prefix m' m \<and> prefix m' i"
  by (auto simp: margin_step_def mismatch_cut_prefix mismatch_cut_prefix2)

lemma margin_Some:
  "\<exists>m'. foldl margin_step (Some m) is = Some m' \<and> prefix m' m \<and> (\<forall>i \<in> set is. prefix m' i)"
proof (induction "is" arbitrary: m)
  case Nil
  then show ?case by simp
next
  case (Cons i "is")
  obtain m1 where m1: "margin_step (Some m) i = Some m1" "prefix m1 m" "prefix m1 i"
    using margin_step_Some by blast
  obtain m2 where m2: "foldl margin_step (Some m1) is = Some m2" "prefix m2 m1"
      "\<forall>j \<in> set is. prefix m2 j"
    using Cons [of m1] by blast
  have "prefix m2 m" "prefix m2 i" using m1 m2 by (auto intro: prefix_order.trans)
  then show ?case using m1 m2 by simp
qed

lemma margin_None: "foldl margin_step None is = None \<longleftrightarrow> is = []"
proof (cases "is")
  case Nil
  then show ?thesis by simp
next
  case (Cons i is')
  then show ?thesis using margin_Some [of i is'] by (auto simp: margin_step_def)
qed

lemma margin_prefix:
  assumes "foldl margin_step None is = Some m" "i \<in> set is"
  shows "prefix m i"
proof (cases "is")
  case Nil
  then show ?thesis using assms by simp
next
  case (Cons j is')
  then obtain m' where "foldl margin_step (Some j) is' = Some m'" "prefix m' j"
    "\<forall>i \<in> set is'. prefix m' i"
    using margin_Some [of j is'] by blast
  then show ?thesis using assms Cons by (auto simp: margin_step_def)
qed

subsection \<open>Indentation\<close>

lemma normal_normalize_line: "normal (normalize_line l)"
  by (simp add: normal_def normalize_line_def)

lemma normalize_line_normal: "normal l \<Longrightarrow> normalize_line l = l"
  by (auto simp: normal_def normalize_line_def)

lemma normalize_line_append:
  "list_all is_ws p \<Longrightarrow> normalize_line (p @ l) = indent_line p (normalize_line l)"
  by (auto simp: normalize_line_def indent_line_def)

lemma strip_margin_empty: "strip_margin m [] = []"
  by (simp add: strip_margin_def)

lemma indents_Cons:
  "indents (l # ls) = (if list_all is_ws l then indents ls else takeWhile is_ws l # indents ls)"
  by (simp add: indents_def)

lemma indent_line_simps:
  "indent_line p [] = []"
  "l \<noteq> [] \<Longrightarrow> indent_line p l = p @ l"
  by (simp_all add: indent_line_def)

lemma indents_indent_line:
  assumes "list_all is_ws p" "list_all normal ls"
  shows "indents (map (indent_line p) ls) = map ((@) p) (indents ls)"
  using assms
proof (induction ls)
  case Nil
  then show ?case by (simp add: indents_def)
next
  case (Cons l ls)
  then have ih: "indents (map (indent_line p) ls) = map ((@) p) (indents ls)" by simp
  have p: "\<forall>x \<in> set p. is_ws x" using Cons.prems(1) by (simp add: list_all_iff)
  show ?case
  proof (cases "l = []")
    case True
    then show ?thesis using ih by (simp add: indents_Cons indent_line_simps)
  next
    case False
    then have nb: "\<not> list_all is_ws l" using Cons.prems(2) by (simp add: normal_def)
    then have "\<not> list_all is_ws (p @ l)" by simp
    moreover have "takeWhile is_ws (p @ l) = p @ takeWhile is_ws l"
      using p by (simp add: takeWhile_append2)
    ultimately show ?thesis using ih False nb by (simp add: indents_Cons indent_line_simps)
  qed
qed

lemma indents_empty:
  assumes "indents ls = []" "list_all normal ls"
  shows "\<forall>l \<in> set ls. l = []"
proof
  fix l assume l: "l \<in> set ls"
  then have "list_all is_ws l" using assms(1) by (simp add: indents_def filter_empty_conv)
  moreover have "normal l" using l assms(2) by (simp add: list_all_iff)
  ultimately show "l = []" by (simp add: normal_def)
qed

lemma indent_in_indents:
  "l \<in> set ls \<Longrightarrow> \<not> list_all is_ws l \<Longrightarrow> takeWhile is_ws l \<in> set (indents ls)"
  by (auto simp: indents_def)

lemma margin_prefix_line:
  assumes "foldl margin_step None (indents ls) = Some m" "l \<in> set ls" "\<not> list_all is_ws l"
  shows "prefix m (takeWhile is_ws l)"
  using margin_prefix [OF assms(1) indent_in_indents [OF assms(2,3)]] .

lemma takeWhile_prefix: "prefix (takeWhile P l) l"
  unfolding prefix_def by (rule exI [of _ "dropWhile P l"]) simp

lemma strip_margin_indent_line:
  assumes "normal l" "l \<noteq> [] \<longrightarrow> prefix m (takeWhile is_ws l)"
  shows "strip_margin (p @ m) (indent_line p l) = strip_margin m l"
proof (cases "l = []")
  case True
  then show ?thesis by (simp add: indent_line_def strip_margin_empty)
next
  case False
  then have "prefix m (takeWhile is_ws l)" using assms(2) by simp
  then have "prefix m l" using takeWhile_prefix [of is_ws l]
    by (rule prefix_order.trans)
  then show ?thesis using False by (simp add: strip_margin_def indent_line_def)
qed

lemma dedent_lines_indent:
  assumes "list_all is_ws p" "list_all normal ls"
  shows "dedent_lines (map (indent_line p) ls) = dedent_lines ls"
proof (cases "foldl margin_step None (indents ls)")
  case None
  then have "indents ls = []" by (simp add: margin_None)
  then have "\<forall>l \<in> set ls. l = []" using assms(2) by (rule indents_empty)
  then have "map (indent_line p) ls = ls" by (intro map_idI) (auto simp: indent_line_def)
  then show ?thesis by simp
next
  case (Some m)
  have m2: "foldl margin_step None (indents (map (indent_line p) ls)) = Some (p @ m)"
    using Some by (simp add: indents_indent_line [OF assms] margin_append_None)
  have "strip_margin (p @ m) (indent_line p l) = strip_margin m l" if "l \<in> set ls" for l
  proof (rule strip_margin_indent_line)
    show "normal l" using that assms(2) by (simp add: list_all_iff)
    then show "l \<noteq> [] \<longrightarrow> prefix m (takeWhile is_ws l)"
      using margin_prefix_line [OF Some that] by (auto simp: normal_def)
  qed
  then have "map (strip_margin (p @ m)) (map (indent_line p) ls) = map (strip_margin m) ls"
    by (induction ls) simp_all
  then show ?thesis by (simp only: dedent_lines_def Some m2 option.case)
qed

lemma is_ws_not_lf: "\<not> is_ws (CHR 0x0A)"
  by (simp add: is_ws_def)

lemma list_all_ws_no_lf: "list_all is_ws p \<Longrightarrow> no_lf p"
  unfolding no_lf_def list_all_iff using is_ws_not_lf by blast

lemma split_lines_indent_text:
  assumes "list_all is_ws p"
  shows "split_lines (indent_text p t) = map ((@) p) (split_lines t)"
proof -
  have "no_lf (p @ l)" if "l \<in> set (split_lines t)" for l
    using split_lines_no_lf [OF that] list_all_ws_no_lf [OF assms] by (simp add: no_lf_def)
  then have "list_all no_lf (map ((@) p) (split_lines t))" by (simp add: list_all_iff)
  then show ?thesis
    unfolding indent_text_def using split_lines_nonempty [of t] by (simp add: split_join_lines)
qed

lemma dedent_indent_text:
  assumes "list_all is_ws p"
  shows "dedent (indent_text p t) = dedent t"
proof -
  let ?ls = "map normalize_line (split_lines t)"
  have "map normalize_line (split_lines (indent_text p t))
          = map normalize_line (map ((@) p) (split_lines t))"
    by (simp only: split_lines_indent_text [OF assms])
  also have "\<dots> = map (indent_line p) ?ls"
    using assms by (simp add: normalize_line_append)
  finally have "dedent (indent_text p t) = join_lines (dedent_lines (map (indent_line p) ?ls))"
    by (simp only: dedent_dedent_lines)
  moreover have "list_all normal ?ls"
    by (simp add: list_all_iff normal_normalize_line)
  ultimately show ?thesis
    by (simp only: dedent_lines_indent [OF assms] dedent_dedent_lines)
qed

lemma normalize_line_blank: "list_all is_ws l \<Longrightarrow> normalize_line l = []"
  by (auto simp: normalize_line_def)

lemma normalize_lines_indented:
  assumes "list_all is_ws p"
    and "list_all2 (\<lambda>l l'. l' = p @ l \<or> (list_all is_ws l \<and> list_all is_ws l')) ls ls'"
  shows "map normalize_line ls' = map (indent_line p) (map normalize_line ls)"
  using assms(2)
proof (induction rule: list_all2_induct)
  case Nil
  then show ?case by simp
next
  case (Cons l ls l' ls')
  have "normalize_line l' = indent_line p (normalize_line l)"
  proof (cases "l' = p @ l")
    case True
    then show ?thesis using assms(1) by (simp add: normalize_line_append)
  next
    case False
    then have "list_all is_ws l" "list_all is_ws l'" using Cons.hyps(1) by auto
    then show ?thesis by (simp add: normalize_line_blank indent_line_simps)
  qed
  then show ?case using Cons.IH by simp
qed

lemma dedent_uniformly_indented:
  assumes "list_all is_ws p" "uniformly_indented p t t'"
  shows "dedent t' = dedent t"
proof -
  let ?ls = "map normalize_line (split_lines t)"
  have "map normalize_line (split_lines t') = map (indent_line p) ?ls"
    using assms by (simp only: uniformly_indented_def normalize_lines_indented)
  then have "dedent t' = join_lines (dedent_lines (map (indent_line p) ?ls))"
    by (simp only: dedent_dedent_lines)
  moreover have "list_all normal ?ls"
    by (simp add: list_all_iff normal_normalize_line)
  ultimately show ?thesis
    by (simp only: dedent_lines_indent [OF assms(1)] dedent_dedent_lines)
qed

lemma uniformly_indented_indent_text:
  assumes "list_all is_ws p"
  shows "uniformly_indented p t (indent_text p t)"
  unfolding uniformly_indented_def split_lines_indent_text [OF assms]
  by (simp add: list_all2_map2 list_all2_same)

subsection \<open>Idempotence\<close>

lemma takeWhile_all: "list_all P (takeWhile P l)"
  by (induction l) simp_all

lemma prefix_list_all: "prefix m i \<Longrightarrow> list_all P i \<Longrightarrow> list_all P m"
  by (auto simp: prefix_def)

lemma margin_ws:
  assumes "foldl margin_step None (indents ls) = Some m"
  shows "list_all is_ws m"
proof -
  have "indents ls \<noteq> []" using assms margin_None [of "indents ls"] by auto
  then obtain i where i: "i \<in> set (indents ls)" by (cases "indents ls") auto
  then have "prefix m i" using margin_prefix [OF assms] by simp
  moreover have "list_all is_ws i" using i by (auto simp: indents_def takeWhile_all)
  ultimately show ?thesis by (rule prefix_list_all)
qed

lemma strip_margin_line:
  assumes "normal l" "list_all is_ws m" "l \<noteq> [] \<longrightarrow> prefix m (takeWhile is_ws l)"
  shows "normal (strip_margin m l) \<and> indent_line m (strip_margin m l) = l"
proof (cases "l = []")
  case True
  then show ?thesis by (simp add: strip_margin_empty normal_def indent_line_def)
next
  case False
  then have nb: "\<not> list_all is_ws l" using assms(1) by (simp add: normal_def)
  have "prefix m (takeWhile is_ws l)" using False assms(3) by simp
  then have "prefix m l" using takeWhile_prefix [of is_ws l] by (rule prefix_order.trans)
  then obtain r where r: "l = m @ r" by (auto simp: prefix_def)
  then have "\<not> list_all is_ws r" using nb assms(2) by simp
  moreover have "strip_margin m l = r" using r by (simp add: strip_margin_def)
  ultimately show ?thesis using r by (auto simp: normal_def indent_line_def)
qed

lemma dedent_lines_cases:
  assumes "list_all normal ls"
  shows "dedent_lines ls = ls
       \<or> (\<exists>m. list_all is_ws m \<and> list_all normal (dedent_lines ls)
              \<and> map (indent_line m) (dedent_lines ls) = ls)"
proof (cases "foldl margin_step None (indents ls)")
  case None
  then show ?thesis by (simp add: dedent_lines_def)
next
  case (Some m)
  have ws: "list_all is_ws m" using Some by (rule margin_ws)
  have l: "normal (strip_margin m l) \<and> indent_line m (strip_margin m l) = l"
    if "l \<in> set ls" for l
  proof (rule strip_margin_line [OF _ ws])
    show "normal l" using that assms by (simp add: list_all_iff)
    then show "l \<noteq> [] \<longrightarrow> prefix m (takeWhile is_ws l)"
      using margin_prefix_line [OF Some that] by (auto simp: normal_def)
  qed
  have d: "dedent_lines ls = map (strip_margin m) ls"
    by (simp only: dedent_lines_def Some option.case)
  have "list_all normal (map (strip_margin m) ls)" using l by (simp add: list_all_iff)
  moreover have "map (indent_line m) (map (strip_margin m) ls) = ls"
    using l by (induction ls) simp_all
  ultimately show ?thesis using ws d by auto
qed

lemma dedent_lines_idem:
  assumes "list_all normal ls"
  shows "dedent_lines (dedent_lines ls) = dedent_lines ls"
    and "list_all normal (dedent_lines ls)"
proof -
  consider "dedent_lines ls = ls"
    | m where "list_all is_ws m" "list_all normal (dedent_lines ls)"
        "map (indent_line m) (dedent_lines ls) = ls"
    using dedent_lines_cases [OF assms] by blast
  then have "dedent_lines (dedent_lines ls) = dedent_lines ls \<and> list_all normal (dedent_lines ls)"
  proof cases
    case 1
    then show ?thesis using assms by simp
  next
    case 2
    have "dedent_lines (map (indent_line m) (dedent_lines ls)) = dedent_lines (dedent_lines ls)"
      using 2(1,2) by (rule dedent_lines_indent)
    then show ?thesis using 2 by simp
  qed
  then show "dedent_lines (dedent_lines ls) = dedent_lines ls"
    and "list_all normal (dedent_lines ls)" by simp_all
qed

lemma no_lf_normalize_line: "no_lf l \<Longrightarrow> no_lf (normalize_line l)"
  by (simp add: no_lf_def normalize_line_def)

lemma no_lf_strip_margin: "no_lf l \<Longrightarrow> no_lf (strip_margin m l)"
  unfolding no_lf_def strip_margin_def using in_set_dropD [of _ "length m" l] by auto

lemma dedent_lines_no_lf: "list_all no_lf ls \<Longrightarrow> list_all no_lf (dedent_lines ls)"
  by (cases "foldl margin_step None (indents ls)")
     (simp_all add: dedent_lines_def list_all_iff no_lf_strip_margin)

lemma dedent_lines_nonempty: "ls \<noteq> [] \<Longrightarrow> dedent_lines ls \<noteq> []"
  by (cases "foldl margin_step None (indents ls)") (simp_all add: dedent_lines_def)

lemma dedent_idem: "dedent (dedent t) = dedent t"
proof -
  let ?ls = "map normalize_line (split_lines t)"
  let ?out = "dedent_lines ?ls"
  have n: "list_all normal ?ls" by (simp add: list_all_iff normal_normalize_line)
  have "list_all no_lf ?ls"
    using split_lines_no_lf [of _ t] by (simp add: list_all_iff no_lf_normalize_line)
  then have "list_all no_lf ?out" by (rule dedent_lines_no_lf)
  moreover have "?out \<noteq> []" using split_lines_nonempty [of t] by (simp add: dedent_lines_nonempty)
  ultimately have s: "split_lines (join_lines ?out) = ?out" by (simp add: split_join_lines)
  have "list_all normal ?out" using n by (rule dedent_lines_idem(2))
  then have "map normalize_line ?out = ?out"
    by (intro map_idI) (simp add: list_all_iff normalize_line_normal)
  then have "dedent (join_lines ?out) = join_lines (dedent_lines ?out)"
    by (simp only: dedent_dedent_lines s)
  then show ?thesis by (simp only: dedent_dedent_lines dedent_lines_idem(1) [OF n])
qed

section \<open>Sets of findings: basic facts\<close>

lemma same_member_refl: "same_member py_str hash128 f f"
  by (simp add: same_member_def Finding_eq_def)

lemma set_contains_member: "f \<in> set s \<Longrightarrow> set_contains py_str hash128 s f"
  unfolding set_contains_def list_ex_iff using same_member_refl by blast

lemma set_difference_self: "set_difference py_str hash128 s s = []"
  unfolding set_difference_def by (simp add: filter_empty_conv set_contains_member)

section \<open>Evaluation of the examples\<close>

lemma dedent_ex_raw: "dedent ''  x = 1'' = ''x = 1''"
  by (simp add: dedent_def normalize_line_def indents_def is_ws_def margin_step_def
      strip_margin_def)

lemma dedent_ex: "dedent ''x = 1'' = ''x = 1''"
  by (simp add: dedent_def normalize_line_def indents_def is_ws_def margin_step_def
      strip_margin_def)

lemma ex_finding_eval:
  "ex_finding =
     \<lparr> check_id = ''rule'', path = ''a.py'', line = 3, column = 1, message = ''msg'',
       severity = 2, index = 0, syntactic_context = ''x = 1'', end_line = Some 9,
       end_column = Some 9, commit_date = None, metadata = [] \<rparr>"
  by (simp add: ex_finding_def Finding_init_def dedent_ex_raw)

lemma evolve_ex_finding:
  "evolve_index ex_finding i = ex_finding\<lparr> index := i \<rparr>"
  by (simp add: ex_finding_eval evolve_index_def Finding_init_def dedent_ex)


section \<open>Equality, hashing and the new-finding set\<close>



lemma evolve_index_constructed:
  assumes "syntactic_context f = dedent t"
  shows "evolve_index f i = f\<lparr> index := i \<rparr>"
  using assms by (simp add: evolve_index_def Finding_init_def dedent_idem)

lemma from_semgrep_result_fields:
  "check_id (snd (from_semgrep_result r d)) = r_check_id r"
  "path (snd (from_semgrep_result r d)) = r_path r"
  "index (snd (from_semgrep_result r d)) = 0"
  "syntactic_context (snd (from_semgrep_result r d)) = dedent (r_lines r)"
  by (simp_all add: from_semgrep_result_def Finding_init_def Let_def)

text \<open>
  C3. The matched text is dedented when a finding is built: the finding of a raw match
  record holds the rule identifier and the path of the record, the index 0 and the
  dedented matched text. Two raw match records that differ only in a uniform indentation
  of the matched text (by a run of spaces and tabs) therefore give the same dedented text,
  and their findings are equal and have the same hash.
\<close>

theorem from_semgrep_result_indentation:
  assumes "list_all is_ws p"
    and "uniformly_indented p (r_lines r1) (r_lines r2)"
    and "r2\<lparr> r_lines := r_lines r1 \<rparr> = r1"
  shows "check_id (snd (from_semgrep_result r1 d)) = r_check_id r1
       \<and> path (snd (from_semgrep_result r1 d)) = r_path r1
       \<and> index (snd (from_semgrep_result r1 d)) = 0
       \<and> syntactic_context (snd (from_semgrep_result r1 d)) = dedent (r_lines r1)
       \<and> syntactic_context (snd (from_semgrep_result r2 d)) = dedent (r_lines r2)
       \<and> dedent (r_lines r2) = dedent (r_lines r1)
       \<and> snd (from_semgrep_result r2 d) = snd (from_semgrep_result r1 d)
       \<and> Finding_eq (snd (from_semgrep_result r1 d)) (snd (from_semgrep_result r2 d))
       \<and> Finding_hash py_str hash128 (snd (from_semgrep_result r1 d))
           = Finding_hash py_str hash128 (snd (from_semgrep_result r2 d))
       \<and> stored_hash py_str hash128 (snd (from_semgrep_result r1 d))
           = stored_hash py_str hash128 (snd (from_semgrep_result r2 d))"
proof -
  have d: "dedent (r_lines r2) = dedent (r_lines r1)"
    using assms(1,2) by (rule dedent_uniformly_indented)
  have "r_check_id r2 = r_check_id r1" "r_path r2 = r_path r1"
    "r_start_line r2 = r_start_line r1" "r_start_col r2 = r_start_col r1"
    "r_end_col r2 = r_end_col r1" "r_message r2 = r_message r1"
    "r_severity r2 = r_severity r1" "r_metadata r2 = r_metadata r1"
    using assms(3) by (cases r1; cases r2; simp)+
  then have e: "snd (from_semgrep_result r2 d) = snd (from_semgrep_result r1 d)"
    using d by (simp add: from_semgrep_result_def Finding_init_def Let_def)
  show ?thesis using d e by (simp add: from_semgrep_result_fields Finding_eq_def)
qed

theorem from_semgrep_result_indentation_witness:
  "list_all is_ws ''  ''
   \<and> uniformly_indented ''  '' ''a\<newline>\<newline>  b'' ''  a\<newline>\<newline>    b''
   \<and> syntactic_context (snd (from_semgrep_result (ex_raw\<lparr> r_lines := ''a\<newline>\<newline>  b'' \<rparr>)
        (None :: unit option))) = ''a\<newline>\<newline>  b''
   \<and> syntactic_context (snd (from_semgrep_result (ex_raw\<lparr> r_lines := ''  a\<newline>\<newline>    b'' \<rparr>)
        (None :: unit option))) = ''a\<newline>\<newline>  b''
   \<and> Finding_eq
        (snd (from_semgrep_result (ex_raw\<lparr> r_lines := ''a\<newline>\<newline>  b'' \<rparr>) (None :: unit option)))
        (snd (from_semgrep_result (ex_raw\<lparr> r_lines := ''  a\<newline>\<newline>    b'' \<rparr>) (None :: unit option)))"
proof -
  have w: "list_all is_ws ''  ''" by (simp add: is_ws_def)
  have u: "uniformly_indented ''  '' ''a\<newline>\<newline>  b'' ''  a\<newline>\<newline>    b''"
    by (simp add: uniformly_indented_def is_ws_def)
  have d: "dedent ''a\<newline>\<newline>  b'' = ''a\<newline>\<newline>  b''"
    by (simp add: dedent_def normalize_line_def indents_def is_ws_def margin_step_def
        strip_margin_def)
  note t = from_semgrep_result_indentation
    [of "''  ''" "ex_raw\<lparr> r_lines := ''a\<newline>\<newline>  b'' \<rparr>"
        "ex_raw\<lparr> r_lines := ''  a\<newline>\<newline>    b'' \<rparr>" "None :: unit option" ex_str ex_hash128]
  have t': "syntactic_context (snd (from_semgrep_result (ex_raw\<lparr> r_lines := ''a\<newline>\<newline>  b'' \<rparr>)
        (None :: unit option))) = ''a\<newline>\<newline>  b''
     \<and> syntactic_context (snd (from_semgrep_result (ex_raw\<lparr> r_lines := ''  a\<newline>\<newline>    b'' \<rparr>)
        (None :: unit option))) = ''a\<newline>\<newline>  b''
     \<and> Finding_eq
        (snd (from_semgrep_result (ex_raw\<lparr> r_lines := ''a\<newline>\<newline>  b'' \<rparr>) (None :: unit option)))
        (snd (from_semgrep_result (ex_raw\<lparr> r_lines := ''  a\<newline>\<newline>    b'' \<rparr>) (None :: unit option)))"
    using t w u d by (simp add: Finding_eq_def)
  show ?thesis
    using w u t' [THEN conjunct1] t' [THEN conjunct2, THEN conjunct1]
      t' [THEN conjunct2, THEN conjunct2]
    by - (intro conjI, assumption+)
qed

text \<open>
  C1. Two findings are equal, and their hashes agree, exactly when their rule identifier,
  path, occurrence index and matched text agree. The generated \<open>__eq__\<close> leaves the
  index out, since \<open>index\<close> is declared \<open>eq=False\<close>, while \<open>__hash__\<close> hashes the
  tuple with the index: the example finding and its copy with index 1 are equal although
  their indices differ, and their hashes differ.
\<close>

theorem Finding_eq_ignores_index:
  "Finding_eq ex_finding (evolve_index ex_finding 1)
   \<and> index ex_finding \<noteq> index (evolve_index ex_finding 1)
   \<and> Finding_hash ex_str ex_hash128 ex_finding
       \<noteq> Finding_hash ex_str ex_hash128 (evolve_index ex_finding 1)"
  unfolding evolve_ex_finding
  by (simp add: Finding_eq_def Finding_hash_def syntactic_identifier_int_def ex_str_def
      ex_hash128_def ex_finding_eval)




text \<open>
  C7. Diffing a snapshot against itself gives no new finding: for every mapping \<open>m\<close>,
  \<open>expensive_new\<close> of the FindingSets with \<open>m\<close> as baseline and as current map is
  empty.
\<close>

theorem expensive_new_self:
  "expensive_new py_str hash128 \<lparr> baseline_map = m, current_map = m \<rparr> = []"
  by (simp add: expensive_new_def current_set_def baseline_set_def set_difference_self)

text \<open>
  C8. Under a single key, the baseline list \<open>[]\<close> against the current list \<open>[A]\<close>
  gives the one new finding \<open>A\<close> with index 0, and the baseline list \<open>[A]\<close> against
  the current list \<open>[]\<close> gives no new finding. \<open>A\<close> is any finding that
  \<open>__init__\<close> builds.
\<close>

theorem expensive_new_appear_disappear:
  "(let A = Finding_init c p l col msg sev i ctx el ec cd md
    in expensive_new py_str hash128 \<lparr> baseline_map = [(k, [])], current_map = [(k, [A])] \<rparr>
         = [A\<lparr> index := 0 \<rparr>]
       \<and> expensive_new py_str hash128 \<lparr> baseline_map = [(k, [A])], current_map = [(k, [])] \<rparr>
         = [])"
proof -
  have "evolve_index (Finding_init c p l col msg sev i ctx el ec cd md) 0
          = (Finding_init c p l col msg sev i ctx el ec cd md)\<lparr> index := 0 \<rparr>"
    by (rule evolve_index_constructed [of _ ctx]) (simp add: Finding_init_def)
  then show ?thesis
    by (simp add: expensive_new_def current_set_def baseline_set_def set_difference_def
        map_to_set_def py_set_def set_add_def set_contains_def Let_def)
qed

section \<open>The identifier\<close>

lemma int_to_bytes_uint:
  "\<exists>bs. int_to_bytes (uint (w :: 128 word)) 16 = Inr bs \<and> length bs = 16"
proof -
  have "uint w < 2 ^ 128" using uint_bounded [of w] by simp
  then have "\<not> (256 ^ 16 \<le> uint w)" by simp
  then show ?thesis by (simp add: int_to_bytes_def)
qed

lemma hex_digit_in: "d < 16 \<Longrightarrow> hex_digit d \<in> set ''0123456789abcdef''"
proof -
  assume "d < 16"
  then have "d = 0 \<or> d = 1 \<or> d = 2 \<or> d = 3 \<or> d = 4 \<or> d = 5 \<or> d = 6 \<or> d = 7 \<or> d = 8
      \<or> d = 9 \<or> d = 10 \<or> d = 11 \<or> d = 12 \<or> d = 13 \<or> d = 14 \<or> d = 15" by arith
  then show ?thesis by (auto simp: hex_digit_def)
qed

lemma length_hexlify: "length (hexlify bs) = 2 * length bs"
  by (induction bs) (simp_all add: hexlify_def)

lemma set_hexlify_sub:
  assumes "\<And>d. d < 16 \<Longrightarrow> hex_digit d \<in> S"
  shows "set (hexlify bs) \<subseteq> S"
proof (induction bs)
  case Nil
  then show ?case by (simp add: hexlify_def)
next
  case (Cons b bs)
  have "unat b < 256" using unsigned_less [of b, where ?'a = nat] by simp
  then have "unat b div 16 < 16" by simp
  then have hi: "hex_digit (unat b div 16) \<in> S" by (rule assms)
  have "unat b mod 16 < 16" by simp
  then have lo: "hex_digit (unat b mod 16) \<in> S" by (rule assms)
  have "hexlify (b # bs) = hex_digit (unat b div 16) # hex_digit (unat b mod 16) # hexlify bs"
    by (simp add: hexlify_def)
  then show ?case using Cons hi lo by simp
qed

lemma set_hexlify: "set (hexlify bs) \<subseteq> set ''0123456789abcdef''"
  by (rule set_hexlify_sub) (rule hex_digit_in)

lemma syntactic_identifier_str_total:
  "\<exists>s. syntactic_identifier_str py_str hash128 f = Inr s \<and> length s = 32
       \<and> set s \<subseteq> set ''0123456789abcdef''"
proof -
  obtain bs where bs:
    "int_to_bytes (syntactic_identifier_int py_str hash128 f) 16 = Inr bs" "length bs = 16"
    using int_to_bytes_uint by (auto simp: syntactic_identifier_int_def Let_def)
  then have "syntactic_identifier_str py_str hash128 f = Inr (hexlify bs)"
    by (simp add: syntactic_identifier_str_def)
  moreover have "length (hexlify bs) = 32" using bs by (simp add: length_hexlify)
  ultimately show ?thesis using set_hexlify by blast
qed

text \<open>
  The identifier depends on the rule identifier, the path, the occurrence index and the
  matched text only: findings that agree on these have the same identifier integer and the
  same identifier string, and the string is always produced and has 32 hexadecimal digits.
\<close>

lemma syntactic_identifier_depends_on_tuple:
  assumes "(check_id f, path f, index f, syntactic_context f)
             = (check_id g, path g, index g, syntactic_context g)"
  shows "syntactic_identifier_int py_str hash128 f = syntactic_identifier_int py_str hash128 g
    \<and> syntactic_identifier_str py_str hash128 f = syntactic_identifier_str py_str hash128 g
    \<and> (\<exists>s. syntactic_identifier_str py_str hash128 f = Inr s \<and> length s = 32
            \<and> set s \<subseteq> set ''0123456789abcdef'')"
proof -
  have "syntactic_identifier_int py_str hash128 f = syntactic_identifier_int py_str hash128 g"
    using assms by (simp add: syntactic_identifier_int_def)
  then show ?thesis
    using syntactic_identifier_str_total [of py_str hash128 f]
    by (simp add: syntactic_identifier_str_def)
qed

lemma syntactic_identifier_example:
  "syntactic_identifier_int ex_str ex_hash128 ex_finding
     = syntactic_identifier_int ex_str ex_hash128 (ex_finding\<lparr> line := 40, message := ''other'' \<rparr>)
   \<and> syntactic_identifier_str ex_str ex_hash128 ex_finding
     = syntactic_identifier_str ex_str ex_hash128 (ex_finding\<lparr> line := 40, message := ''other'' \<rparr>)
   \<and> syntactic_identifier_str ex_str ex_hash128 ex_finding
     = Inr ''0000000000000000000000000000000d''"
proof -
  have "syntactic_identifier_str ex_str ex_hash128 ex_finding
     = Inr ''0000000000000000000000000000000d''"
    by (simp add: syntactic_identifier_str_def syntactic_identifier_int_def ex_str_def
        ex_hash128_def ex_finding_eval int_to_bytes_def upt_rec hexlify_def hex_digit_def)
  then show ?thesis
    using syntactic_identifier_depends_on_tuple
      [of ex_finding "ex_finding\<lparr> line := 40, message := ''other'' \<rparr>" ex_str ex_hash128]
    by simp
qed

section \<open>is_blocking and to_dict\<close>

text \<open>
  C10. \<open>is_blocking\<close> is true unless the metadata has the key
  \<open>dev.semgrep.actions\<close> with a list that does not contain \<open>block\<close>; without the key
  it is true. The statement covers the metadata without the key and the metadata whose
  value under the key is a list.
\<close>

theorem is_blocking_default:
  assumes "map_of (metadata f) ''dev.semgrep.actions'' = None
           \<or> (\<exists>xs. map_of (metadata f) ''dev.semgrep.actions'' = Some (JList xs))"
  shows "is_blocking f =
           Inr (\<not> (\<exists>xs. map_of (metadata f) ''dev.semgrep.actions'' = Some (JList xs)
                        \<and> JStr ''block'' \<notin> set xs))
         \<and> (map_of (metadata f) ''dev.semgrep.actions'' = None \<longrightarrow> is_blocking f = Inr True)"
  using assms by (auto simp: is_blocking_def dict_get_def)

theorem is_blocking_default_witness:
  "is_blocking ex_finding = Inr True
   \<and> is_blocking (ex_finding\<lparr> metadata := [(''dev.semgrep.actions'', JList [JStr ''monitor''])] \<rparr>)
       = Inr False
   \<and> is_blocking (ex_finding\<lparr> metadata :=
        [(''dev.semgrep.actions'', JList [JStr ''monitor'', JStr ''block''])] \<rparr>) = Inr True"
  using is_blocking_default [of ex_finding]
    is_blocking_default
      [of "ex_finding\<lparr> metadata := [(''dev.semgrep.actions'', JList [JStr ''monitor''])] \<rparr>"]
    is_blocking_default
      [of "ex_finding\<lparr> metadata :=
             [(''dev.semgrep.actions'', JList [JStr ''monitor'', JStr ''block''])] \<rparr>"]
  by (simp add: ex_finding_eval)

lemma to_dict_without_commit_date:
  assumes "commit_date f = None"
  shows "to_dict py_str hash128 isoformat f = Inl (KeyError ''commit_date'')"
proof -
  obtain s where "syntactic_identifier_str py_str hash128 f = Inr s"
    using syntactic_identifier_str_total [of py_str hash128 f] by blast
  then show ?thesis using assms
    by (simp add: to_dict_def asdict_def opt_int_def split: option.splits)
qed

text \<open>
  C6. \<open>to_dict\<close> returns a mapping for every finding, also for one whose commit date
  is null. On the example finding, whose \<open>commit_date\<close> is \<open>None\<close>, the filtered dict
  has no key \<open>commit_date\<close>, and \<open>to_dict\<close> raises \<open>KeyError\<close>.
\<close>

theorem to_dict_raises_KeyError:
  "commit_date ex_finding = None
   \<and> to_dict ex_str ex_hash128 (\<lambda>d. ''2021-01-01T00:00:00'') ex_finding
       = Inl (KeyError ''commit_date'')"
  using to_dict_without_commit_date [of ex_finding] by (simp add: ex_finding_eval)

section \<open>The scope of fix_head_for_github\<close>

lemma ran_simps:
  "trace (ran c g) = trace g @ [c]"
  "present (ran c g) = present g"
  "branch (ran c g) = branch g"
  "commit_of (ran c g) = commit_of g"
  "is_branch (ran c g) = is_branch g"
  by (simp_all add: ran_def)

lemma trace_git_checkout: "trace (snd (git_checkout r g)) = trace g @ [Checkout r]"
  by (simp add: git_checkout_def ran_simps split: option.splits)

lemma trace_fix_head_exit:
  "trace (snd (fix_head_exit (Some r) g)) = trace g @ [Checkout r]"
  "fix_head_exit None g = (Inr (), g)"
  by (simp_all add: fix_head_exit_def trace_git_checkout)

lemma resolve_base_ok:
  assumes "base = None \<or> base = Some [] \<or> (\<exists>b c. base = Some b \<and> commit_of g b = Some c)"
  shows "\<exists>b pre. resolve_base base g = (Inr b, g\<lparr> trace := trace g @ pre \<rparr>)
           \<and> (\<forall>r. Checkout r \<notin> set pre)"
proof -
  consider "base = None" | "base = Some []" | b c where "base = Some b" "b \<noteq> []" "commit_of g b = Some c"
    using assms by (cases base) auto
  then show ?thesis
  proof cases
    case 1
    then have "resolve_base base g = (Inr None, g\<lparr> trace := trace g @ [] \<rparr>)
        \<and> (\<forall>r. Checkout r \<notin> set [])"
      by (simp add: resolve_base_def)
    then show ?thesis by (intro exI)
  next
    case 2
    then have "resolve_base base g = (Inr (Some []), g\<lparr> trace := trace g @ [] \<rparr>)
        \<and> (\<forall>r. Checkout r \<notin> set [])"
      by (simp add: resolve_base_def)
    then show ?thesis by (intro exI)
  next
    case 3
    then have "resolve_base base g = (Inr (Some c), g\<lparr> trace := trace g @ [RevParse b] \<rparr>)
        \<and> (\<forall>r. Checkout r \<notin> set [RevParse b])"
      by (simp add: resolve_base_def git_rev_parse_def ran_def)
    then show ?thesis by (intro exI)
  qed
qed

lemma stash_and_checkout_none:
  "head_ref = None \<or> head_ref = Some [] \<Longrightarrow> stash_and_checkout head_ref g = (Inr None, g)"
  by (auto simp: stash_and_checkout_def)

lemma stash_and_checkout_issues:
  assumes "h \<noteq> []" "branch g \<noteq> [] \<or> commit_of g ''HEAD'' \<noteq> None"
  shows "\<exists>pre. trace (snd (stash_and_checkout (Some h) g)) = trace g @ pre @ [Checkout h]"
  using assms
  by (auto simp: stash_and_checkout_def git_branch_show_current_def git_rev_parse_def
      git_checkout_def ran_simps split: option.splits)

lemma stash_and_checkout_ok:
  assumes "h \<noteq> []" "(if branch g \<noteq> [] then Some (branch g) else commit_of g ''HEAD'') = Some s"
    "commit_of g h \<noteq> None"
  shows "\<exists>g2. stash_and_checkout (Some h) g = (Inr (Some s), g2)"
  using assms
  by (auto simp: stash_and_checkout_def git_branch_show_current_def git_rev_parse_def
      git_checkout_def ran_simps split: option.splits if_splits)

text \<open>
  The head ref \<open>pr\<close> is the branch that is checked out, and the checkout of \<open>pr\<close>
  is run all the same: the scope body sees it among the commands run before it.
\<close>

theorem fix_head_checkout_counterexample:
  "branch ex_repo = ''pr''
   \<and> fst (fix_head_for_github None (Some ''pr'') observe ex_repo)
       = Inr [BranchShowCurrent, Checkout ''pr'']"
  by (simp add: ex_repo_def fix_head_for_github_def fix_head_enter_def resolve_base_def
      stash_and_checkout_def git_branch_show_current_def git_checkout_def observe_def
      fix_head_exit_def ran_simps)


lemma trace_git_log: "trace (snd (git_log b g)) = trace g @ [Log (b @ ''..HEAD'')]"
  by (simp add: git_log_def ran_simps)

lemma resolve_base_trace:
  "\<exists>pre. trace (snd (resolve_base base g)) = trace g @ pre \<and> (\<forall>r. Checkout r \<notin> set pre)"
proof (cases "\<exists>b. base = Some b \<and> b \<noteq> []")
  case True
  then obtain b where "base = Some b" "b \<noteq> []" by blast
  then have "trace (snd (resolve_base base g)) = trace g @ [RevParse b]
      \<and> (\<forall>r. Checkout r \<notin> set [RevParse b])"
    by (simp add: resolve_base_def git_rev_parse_def ran_simps split: option.splits)
  then show ?thesis by (intro exI)
next
  case False
  then have "trace (snd (resolve_base base g)) = trace g @ [] \<and> (\<forall>r. Checkout r \<notin> set [])"
    by (cases base) (auto simp: resolve_base_def)
  then show ?thesis by (intro exI)
qed

lemma enter_not_present:
  "\<not> present g \<Longrightarrow> fix_head_enter base head_ref g = (Inr (base, None), g)"
  by (simp add: fix_head_enter_def)

lemma enter_no_head:
  assumes "present g" "head_ref = None \<or> head_ref = Some []"
  shows "\<exists>pre. trace (snd (fix_head_enter base head_ref g)) = trace g @ pre
           \<and> (\<forall>r. Checkout r \<notin> set pre)"
proof -
  obtain res g1 where r: "resolve_base base g = (res, g1)" by (cases "resolve_base base g")
  obtain pre where pre: "trace g1 = trace g @ pre" "\<forall>r. Checkout r \<notin> set pre"
    using resolve_base_trace [of base g] r by auto
  have s: "stash_and_checkout head_ref g1 = (Inr None, g1)"
    using assms(2) by (rule stash_and_checkout_none)
  show ?thesis
  proof (cases res)
    case (Inl e)
    then have "fix_head_enter base head_ref g = (Inl e, g1)"
      using assms(1) r by (simp add: fix_head_enter_def)
    then show ?thesis using pre by auto
  next
    case (Inr b)
    show ?thesis
    proof (cases b)
      case None
      then have "fix_head_enter base head_ref g = (Inr (None, None), g1)"
        using assms(1) r s Inr by (simp add: fix_head_enter_def)
      then show ?thesis using pre by auto
    next
      case (Some c)
      have "trace (snd (fix_head_enter base head_ref g)) = trace g @ (pre @ [Log (c @ ''..HEAD'')])"
        using assms(1) r s Inr Some pre trace_git_log [of c g1]
        by (auto simp: fix_head_enter_def fix_head_exit_def split: prod.splits sum.splits)
      moreover have "\<forall>r. Checkout r \<notin> set (pre @ [Log (c @ ''..HEAD'')])" using pre by simp
      ultimately show ?thesis by (intro exI conjI)
    qed
  qed
qed

lemma enter_after_stash:
  assumes "present g" "resolve_base base g = (Inr b, g1)"
  shows "\<exists>post. trace (snd (fix_head_enter base head_ref g))
            = trace (snd (stash_and_checkout head_ref g1)) @ post"
proof -
  obtain res g2 where s: "stash_and_checkout head_ref g1 = (res, g2)"
    by (cases "stash_and_checkout head_ref g1")
  show ?thesis
  proof (cases res)
    case (Inl e)
    then have "fix_head_enter base head_ref g = (Inl e, g2)"
      using assms s by (simp add: fix_head_enter_def)
    then show ?thesis using s by simp
  next
    case (Inr st)
    show ?thesis
    proof (cases b)
      case None
      then have "fix_head_enter base head_ref g = (Inr (None, st), g2)"
        using assms s Inr by (simp add: fix_head_enter_def)
      then show ?thesis using s by simp
    next
      case (Some c)
      obtain lr g3 where l: "git_log c g2 = (lr, g3)" by (cases "git_log c g2")
      then have t3: "trace g3 = trace g2 @ [Log (c @ ''..HEAD'')]"
        using trace_git_log [of c g2] by simp
      show ?thesis
      proof (cases lr)
        case (Inr u)
        then have "fix_head_enter base head_ref g = (Inr (Some c, st), g3)"
          using assms s \<open>res = Inr st\<close> Some l by (simp add: fix_head_enter_def)
        then show ?thesis using s t3 by simp
      next
        case (Inl e)
        then have "snd (fix_head_enter base head_ref g) = snd (fix_head_exit st g3)"
          using assms s \<open>res = Inr st\<close> Some l
          by (simp add: fix_head_enter_def split: prod.splits sum.splits)
        then show ?thesis using s t3 trace_fix_head_exit by (cases st) auto
      qed
    qed
  qed
qed

lemma enter_no_head_stashed:
  assumes "\<not> present g \<or> head_ref = None \<or> head_ref = Some []"
    and "fix_head_enter base head_ref g = (Inr (b, st), g1)"
  shows "st = None"
proof (cases "present g")
  case False
  then show ?thesis using assms(2) by (simp add: enter_not_present)
next
  case True
  then have h: "head_ref = None \<or> head_ref = Some []" using assms(1) by simp
  obtain res g0 where r: "resolve_base base g = (res, g0)" by (cases "resolve_base base g")
  have s: "stash_and_checkout head_ref g0 = (Inr None, g0)"
    using h by (rule stash_and_checkout_none)
  show ?thesis
    using assms(2) True r s
    by (auto simp: fix_head_enter_def fix_head_exit_def split: sum.splits option.splits prod.splits)
qed

lemma scope_without_head:
  assumes "\<not> present g \<or> head_ref = None \<or> head_ref = Some []"
  shows "case fix_head_enter base head_ref g of
           (Inl e, g1) \<Rightarrow> fix_head_for_github base head_ref body g = (Inl e, g1)
         | (Inr (b, st), g1) \<Rightarrow> fix_head_for_github base head_ref body g = body b g1"
proof -
  obtain res g1 where e: "fix_head_enter base head_ref g = (res, g1)"
    by (cases "fix_head_enter base head_ref g")
  show ?thesis
  proof (cases res)
    case (Inl err)
    then show ?thesis using e by (simp add: fix_head_for_github_def)
  next
    case (Inr bs)
    obtain b st where bs: "bs = (b, st)" by (cases bs)
    then have "st = None" using enter_no_head_stashed [OF assms] e Inr by simp
    then show ?thesis using e Inr bs
      by (simp add: fix_head_for_github_def fix_head_exit_def split: prod.splits)
  qed
qed

text \<open>
  C4, as amended. With a repository present and a non-empty head ref given,
  \<open>fix_head_for_github\<close> runs a checkout of the head ref before the scope starts,
  whatever the checked-out position is (provided the base ref resolves and the current
  position can be read). With no repository, or with no head ref or an empty one, it runs
  no checkout: none before the scope starts, and the scope is the body alone.
\<close>

theorem fix_head_checkout_when_head_given:
  "(present g \<and> h \<noteq> []
      \<and> (base = None \<or> base = Some [] \<or> (\<exists>b c. base = Some b \<and> commit_of g b = Some c))
      \<and> (branch g \<noteq> [] \<or> commit_of g ''HEAD'' \<noteq> None)
     \<longrightarrow> Checkout h \<in> set (new_cmds g (snd (fix_head_enter base (Some h) g))))
   \<and> (\<not> present g \<or> head_ref = None \<or> head_ref = Some []
     \<longrightarrow> (\<forall>r. Checkout r \<notin> set (new_cmds g (snd (fix_head_enter base head_ref g))))
         \<and> (case fix_head_enter base head_ref g of
                (Inl e, g1) \<Rightarrow> fix_head_for_github base head_ref body g = (Inl e, g1)
              | (Inr (b, st), g1) \<Rightarrow> fix_head_for_github base head_ref body g = body b g1))"
proof (intro conjI impI)
  assume a: "present g \<and> h \<noteq> []
      \<and> (base = None \<or> base = Some [] \<or> (\<exists>b c. base = Some b \<and> commit_of g b = Some c))
      \<and> (branch g \<noteq> [] \<or> commit_of g ''HEAD'' \<noteq> None)"
  then obtain b pre where r: "resolve_base base g = (Inr b, g\<lparr> trace := trace g @ pre \<rparr>)"
    using resolve_base_ok [of base g] by blast
  let ?g1 = "g\<lparr> trace := trace g @ pre \<rparr>"
  have "branch ?g1 \<noteq> [] \<or> commit_of ?g1 ''HEAD'' \<noteq> None" using a by simp
  then obtain pre2 where
    "trace (snd (stash_and_checkout (Some h) ?g1)) = trace ?g1 @ pre2 @ [Checkout h]"
    using stash_and_checkout_issues [of h ?g1] a by blast
  moreover obtain post where
    "trace (snd (fix_head_enter base (Some h) g))
       = trace (snd (stash_and_checkout (Some h) ?g1)) @ post"
    using enter_after_stash [OF _ r] a by blast
  ultimately have "trace (snd (fix_head_enter base (Some h) g))
       = trace g @ (pre @ pre2 @ [Checkout h] @ post)" by simp
  then show "Checkout h \<in> set (new_cmds g (snd (fix_head_enter base (Some h) g)))"
    by (simp add: new_cmds_def)
next
  assume a: "\<not> present g \<or> head_ref = None \<or> head_ref = Some []"
  show "\<forall>r. Checkout r \<notin> set (new_cmds g (snd (fix_head_enter base head_ref g)))"
  proof (cases "present g")
    case False
    then show ?thesis by (simp add: enter_not_present new_cmds_def)
  next
    case True
    then obtain pre where "trace (snd (fix_head_enter base head_ref g)) = trace g @ pre"
      "\<forall>r. Checkout r \<notin> set pre"
      using enter_no_head [of g head_ref base] a by blast
    then show ?thesis by (simp add: new_cmds_def)
  qed
next
  assume "\<not> present g \<or> head_ref = None \<or> head_ref = Some []"
  then show "case fix_head_enter base head_ref g of
               (Inl e, g1) \<Rightarrow> fix_head_for_github base head_ref body g = (Inl e, g1)
             | (Inr (b, st), g1) \<Rightarrow> fix_head_for_github base head_ref body g = body b g1"
    by (rule scope_without_head)
qed

theorem fix_head_checkout_when_head_given_witness:
  "Checkout ''pr'' \<in> set (new_cmds ex_repo (snd (fix_head_enter None (Some ''pr'') ex_repo)))
   \<and> (\<forall>r. Checkout r \<notin> set (new_cmds ex_repo (snd (fix_head_enter (Some ''main'') None ex_repo))))"
proof -
  note t1 = fix_head_checkout_when_head_given [of ex_repo "''pr''" None None observe]
  note t2 = fix_head_checkout_when_head_given [of ex_repo "''pr''" "Some ''main''" None observe]
  have a: "Checkout ''pr'' \<in> set (new_cmds ex_repo (snd (fix_head_enter None (Some ''pr'') ex_repo)))"
    using t1 [THEN conjunct1] by (simp add: ex_repo_def)
  have b: "\<forall>r. Checkout r \<notin> set (new_cmds ex_repo (snd (fix_head_enter (Some ''main'') None ex_repo)))"
    using t2 [THEN conjunct2] by simp
  show ?thesis using a b by - (intro conjI, assumption+)
qed


lemma enter_recorded:
  assumes "present g" "h \<noteq> []"
    and "base = None \<or> base = Some [] \<or> (\<exists>b c. base = Some b \<and> commit_of g b = Some c)"
    and "(if branch g \<noteq> [] then Some (branch g) else commit_of g ''HEAD'') = Some s"
    and "commit_of g h \<noteq> None"
  shows "(\<exists>b g1. fix_head_enter base (Some h) g = (Inr (b, Some s), g1))
       \<or> (\<exists>e g1. fix_head_enter base (Some h) g = (Inl e, g1) \<and> last (trace g1) = Checkout s)"
proof -
  obtain b pre where r: "resolve_base base g = (Inr b, g\<lparr> trace := trace g @ pre \<rparr>)"
    using resolve_base_ok [OF assms(3)] by blast
  let ?g1 = "g\<lparr> trace := trace g @ pre \<rparr>"
  have "(if branch ?g1 \<noteq> [] then Some (branch ?g1) else commit_of ?g1 ''HEAD'') = Some s"
    using assms(4) by (simp split: if_splits)
  moreover have "commit_of ?g1 h \<noteq> None" using assms(5) by simp
  ultimately obtain g2 where s: "stash_and_checkout (Some h) ?g1 = (Inr (Some s), g2)"
    using stash_and_checkout_ok [of h ?g1 s] assms(2) by blast
  show ?thesis
  proof (cases b)
    case None
    then have "fix_head_enter base (Some h) g = (Inr (None, Some s), g2)"
      using assms(1) r s by (simp add: fix_head_enter_def)
    then show ?thesis by blast
  next
    case (Some c)
    obtain lr g3 where l: "git_log c g2 = (lr, g3)" by (cases "git_log c g2")
    show ?thesis
    proof (cases lr)
      case (Inr u)
      then have "fix_head_enter base (Some h) g = (Inr (Some c, Some s), g3)"
        using assms(1) r s Some l by (simp add: fix_head_enter_def)
      then show ?thesis by blast
    next
      case (Inl e)
      obtain xr g4 where x: "fix_head_exit (Some s) g3 = (xr, g4)"
        by (cases "fix_head_exit (Some s) g3")
      then have "trace g4 = trace g3 @ [Checkout s]"
        using trace_fix_head_exit(1) [of s g3] by simp
      then have "last (trace g4) = Checkout s" by simp
      moreover have "\<exists>e'. fix_head_enter base (Some h) g = (Inl e', g4)"
        using assms(1) r s Some l Inl x by (cases xr) (simp_all add: fix_head_enter_def)
      ultimately show ?thesis by blast
    qed
  qed
qed

text \<open>
  C5. When a head ref was given and \<open>fix_head_for_github\<close> has recorded the position
  \<open>s\<close> and checked the head ref out, the last command it runs is the checkout of
  \<open>s\<close>: after the body of the scope, whether the body returned or raised (an error
  stays an error), and also when \<open>git log\<close> fails before the scope starts.
\<close>

theorem fix_head_restores_on_exit:
  assumes "present g" "h \<noteq> []"
    and "base = None \<or> base = Some [] \<or> (\<exists>b c. base = Some b \<and> commit_of g b = Some c)"
    and "(if branch g \<noteq> [] then Some (branch g) else commit_of g ''HEAD'') = Some s"
    and "commit_of g h \<noteq> None"
  shows "case fix_head_enter base (Some h) g of
           (Inl e, g1) \<Rightarrow>
             fix_head_for_github base (Some h) body g = (Inl e, g1)
             \<and> last (trace g1) = Checkout s
         | (Inr (b, stashed_rev), g1) \<Rightarrow>
             stashed_rev = Some s
             \<and> (case body b g1 of
                  (r, g2) \<Rightarrow>
                    trace (snd (fix_head_for_github base (Some h) body g))
                      = trace g2 @ [Checkout s]
                    \<and> (isl r \<longrightarrow> isl (fst (fix_head_for_github base (Some h) body g))))"
proof -
  consider b g1 where "fix_head_enter base (Some h) g = (Inr (b, Some s), g1)"
    | e g1 where "fix_head_enter base (Some h) g = (Inl e, g1)" "last (trace g1) = Checkout s"
    using enter_recorded [OF assms] by blast
  then show ?thesis
  proof cases
    case 1
    obtain r g2 where b: "body b g1 = (r, g2)" by (cases "body b g1")
    obtain xr g3 where x: "fix_head_exit (Some s) g2 = (xr, g3)"
      by (cases "fix_head_exit (Some s) g2")
    then have t: "trace g3 = trace g2 @ [Checkout s]"
      using trace_fix_head_exit(1) [of s g2] by simp
    have "fix_head_for_github base (Some h) body g
            = (case xr of Inl e \<Rightarrow> Inl e | Inr u \<Rightarrow> r, g3)"
      using 1 b x by (cases xr) (simp_all add: fix_head_for_github_def)
    then show ?thesis using 1 b t by (cases xr) auto
  next
    case 2
    then show ?thesis by (simp add: fix_head_for_github_def)
  qed
qed

theorem fix_head_restores_on_exit_witness:
  "present ex_repo
   \<and> fix_head_enter None (Some ''main'') ex_repo
       = (Inr (None, Some ''pr''), snd (fix_head_enter None (Some ''main'') ex_repo))
   \<and> fst (fix_head_for_github None (Some ''main'') raising ex_repo) = Inl TypeError
   \<and> trace (snd (fix_head_for_github None (Some ''main'') raising ex_repo))
       = [BranchShowCurrent, Checkout ''main'', Checkout ''pr'']
   \<and> branch (snd (fix_head_for_github None (Some ''main'') raising ex_repo)) = ''pr''"
proof -
  have e: "fix_head_enter None (Some ''main'') ex_repo
       = (Inr (None, Some ''pr''), snd (fix_head_enter None (Some ''main'') ex_repo))"
    by (simp add: ex_repo_def fix_head_enter_def resolve_base_def stash_and_checkout_def
        git_branch_show_current_def git_checkout_def ran_simps)
  have t: "trace (snd (fix_head_enter None (Some ''main'') ex_repo))
       = [BranchShowCurrent, Checkout ''main'']"
    by (simp add: ex_repo_def fix_head_enter_def resolve_base_def stash_and_checkout_def
        git_branch_show_current_def git_checkout_def ran_simps)
  have f: "fst (fix_head_for_github None (Some ''main'') raising ex_repo) = Inl TypeError
    \<and> branch (snd (fix_head_for_github None (Some ''main'') raising ex_repo)) = ''pr''"
    by (simp add: ex_repo_def fix_head_for_github_def fix_head_enter_def resolve_base_def
        stash_and_checkout_def git_branch_show_current_def git_checkout_def ran_simps
        raising_def fix_head_exit_def)
  have "present ex_repo" by (simp add: ex_repo_def)
  moreover have "trace (snd (fix_head_for_github None (Some ''main'') raising ex_repo))
       = [BranchShowCurrent, Checkout ''main'', Checkout ''pr'']"
    using fix_head_restores_on_exit [of ex_repo "''main''" None "''pr''" raising] e t
    by (simp add: ex_repo_def raising_def split: prod.splits)
  ultimately show ?thesis using e f by simp
qed

end
